theory Spec2Isabelle
  imports Main "HOL-Library.Word" "HOL-Library.Multiset"
begin

section \<open>The join hash table of \<open>be/src/exec/hash-table.h\<close>\<close>

text \<open>
  \<open>HashTable\<close> indexes \<open>TupleRow*\<close> by the values of key expressions. It wraps a
  \<open>boost::unordered_multiset<TupleRow*, HashFn, EqualsFn>\<close> and adds a null policy
  (\<open>stores_nulls_\<close>), a scratch pointer (\<open>current_probe_row_\<close>) through which the hash
  and equality functors see the probe row, and an iterator over a range of the multiset.
\<close>

subsection \<open>Rows, expressions and hash codes\<close>

text \<open>
  A \<open>TupleRow*\<close> is an opaque pointer: \<open>None\<close> is \<open>NULL\<close>, \<open>Some a\<close> the row at
  address \<open>a\<close>. An \<open>Expr\<close> is only forward-declared in the header; the table needs one
  capability of it, \<open>GetValue(TupleRow*)\<close>, which returns a pointer to the value, \<open>NULL\<close>
  for an SQL null. So an expression is a function from row pointers to optional values.
\<close>

type_synonym TupleRow = "nat option"

type_synonym 'v Expr = "TupleRow \<Rightarrow> 'v option"

type_synonym size_t = "64 word"

definition GetValues :: "'v Expr list \<Rightarrow> TupleRow \<Rightarrow> 'v option list" where
  "GetValues exprs r = map (\<lambda>e. e r) exprs"

subsection \<open>The underlying multiset container\<close>

text \<open>
  \<open>boost::unordered_multiset\<close> is a library, not code of this repository. It is modelled
  by what the table relies on: nodes are kept in groups; each group carries the hash code
  of its nodes; \<open>insert\<close> looks for the first group with the same hash code whose first
  node is equal to the new key (the key is the first argument of the equality functor) and
  appends the node to that group, or opens a new group; \<open>equal_range\<close> returns the
  positions of the first such group, or the empty range at \<open>end()\<close>. Iteration runs
  through the groups in sequence. A group is (hash code, first node, later nodes).
  Which bucket a group sits in, and so the order of the groups, is the container's
  choice; here a new group goes last.
\<close>

type_synonym HashSet = "(size_t \<times> TupleRow \<times> TupleRow list) list"

definition nodes :: "HashSet \<Rightarrow> TupleRow list" where
  "nodes tbl = concat (map (\<lambda>(h, x, xs). x # xs) tbl)"

definition hs_size :: "HashSet \<Rightarrow> nat" where
  "hs_size tbl = length (nodes tbl)"

fun hs_add_node :: "size_t \<Rightarrow> (TupleRow \<Rightarrow> bool) \<Rightarrow> TupleRow \<Rightarrow> HashSet \<Rightarrow> HashSet" where
  "hs_add_node h eqk r [] = [(h, r, [])]"
| "hs_add_node h eqk r ((h', x, xs) # gs) =
     (if h' = h \<and> eqk x then (h', x, xs @ [r]) # gs
      else (h', x, xs) # hs_add_node h eqk r gs)"

definition hs_insert ::
  "(TupleRow \<Rightarrow> size_t) \<Rightarrow> (TupleRow \<Rightarrow> TupleRow \<Rightarrow> bool) \<Rightarrow> TupleRow \<Rightarrow> HashSet \<Rightarrow> HashSet" where
  "hs_insert hash_fn equals_fn r tbl = hs_add_node (hash_fn r) (equals_fn r) r tbl"

fun hs_find_group :: "nat \<Rightarrow> size_t \<Rightarrow> (TupleRow \<Rightarrow> bool) \<Rightarrow> HashSet \<Rightarrow> nat \<times> nat" where
  "hs_find_group pos h eqk [] = (pos, pos)"
| "hs_find_group pos h eqk ((h', x, xs) # gs) =
     (if h' = h \<and> eqk x then (pos, pos + 1 + length xs)
      else hs_find_group (pos + 1 + length xs) h eqk gs)"

definition hs_equal_range ::
  "(TupleRow \<Rightarrow> size_t) \<Rightarrow> (TupleRow \<Rightarrow> TupleRow \<Rightarrow> bool) \<Rightarrow> TupleRow \<Rightarrow> HashSet \<Rightarrow> nat \<times> nat" where
  "hs_equal_range hash_fn equals_fn k tbl = hs_find_group 0 (hash_fn k) (equals_fn k) tbl"

definition hs_begin :: "HashSet \<Rightarrow> nat" where
  "hs_begin tbl = 0"

definition hs_end :: "HashSet \<Rightarrow> nat" where
  "hs_end tbl = hs_size tbl"

subsection \<open>The table\<close>

text \<open>
  The fields of \<open>class HashTable\<close>. The functor members \<open>hash_fn_\<close> and \<open>equals_fn_\<close>
  hold nothing but a pointer back to the table; they are the functions \<open>HashFn\<close> and
  \<open>EqualsFn\<close> below, applied to the table. \<open>build_row_desc_\<close> is a reference the
  table keeps and never interprets. A name cannot end with an underscore here, so the
  members are written without it (\<open>hash_tbl\<close> for \<open>hash_tbl_\<close>), and the iterator's
  \<open>i_\<close> and \<open>end_\<close> are \<open>i_pos\<close> and \<open>end_pos\<close>.
\<close>

record ('v, 'd) HashTable =
  hash_tbl :: HashSet
  build_exprs1 :: "'v Expr list"
  build_exprs2 :: "'v Expr list"
  probe_exprs :: "'v Expr list"
  build_row_desc :: 'd
  current_probe_row :: TupleRow
  stores_nulls :: bool

text \<open>
  Modelled from the spec: \<open>HashTable::HasNulls\<close> is declared in the header and defined
  elsewhere. "Given a row, evaluates the first build key-expression set and reports
  whether any resulting value is null."
\<close>

definition HasNulls :: "('v, 'd) HashTable \<Rightarrow> TupleRow \<Rightarrow> bool" where
  "HasNulls ht build_row = list_ex (\<lambda>v. v = None) (GetValues (build_exprs1 ht) build_row)"

text \<open>
  Modelled from the spec: \<open>HashFn::operator()\<close> is declared in the header and defined
  elsewhere. "If x is a real row reference, evaluate the second build key-expression set
  over x and combine the resulting values into one hash code. If x is the sentinel,
  evaluate the probe key-expression set over the current probe-context row and combine
  those values identically." The combination itself (the hash of a value and the mixing
  of the codes) is left open by the spec, so it is the parameter \<open>combine\<close>.
\<close>

definition HashFn :: "('v option list \<Rightarrow> size_t) \<Rightarrow> ('v, 'd) HashTable \<Rightarrow> TupleRow \<Rightarrow> size_t" where
  "HashFn combine ht r =
     (if r \<noteq> None then combine (GetValues (build_exprs2 ht) r)
      else combine (GetValues (probe_exprs ht) (current_probe_row ht)))"

text \<open>
  Modelled from the spec: \<open>EqualsFn::operator()\<close> is declared in the header and defined
  elsewhere. "Resolve each side independently: for a side equal to the sentinel, compute
  its key tuple from the probe key-expression set over the current probe-context row; for
  a non-sentinel side, compute its key tuple from the build key-expression set over that
  row. Two sides are equal iff every corresponding key value is equal, with the exception
  that under the stores-nulls policy, null is equal to null." The two build sets compute
  the same key expressions; the header keeps two copies "to evaluate both build rows",
  so side \<open>a\<close> uses the first copy and side \<open>b\<close> the second. Tuples are compared
  value by value; tuples of different arity are not equal.
\<close>

definition ValueEquals :: "bool \<Rightarrow> 'v option \<Rightarrow> 'v option \<Rightarrow> bool" where
  "ValueEquals nulls_eq v1 v2 =
     (case (v1, v2) of
        (None, None) \<Rightarrow> nulls_eq
      | (Some x, Some y) \<Rightarrow> x = y
      | _ \<Rightarrow> False)"

fun TupleEquals :: "bool \<Rightarrow> 'v option list \<Rightarrow> 'v option list \<Rightarrow> bool" where
  "TupleEquals nulls_eq [] [] = True"
| "TupleEquals nulls_eq (v1 # vs1) (v2 # vs2) =
     (ValueEquals nulls_eq v1 v2 \<and> TupleEquals nulls_eq vs1 vs2)"
| "TupleEquals nulls_eq _ _ = False"

definition SideValues :: "'v Expr list \<Rightarrow> ('v, 'd) HashTable \<Rightarrow> TupleRow \<Rightarrow> 'v option list" where
  "SideValues build_exprs ht x =
     (if x = None then GetValues (probe_exprs ht) (current_probe_row ht)
      else GetValues build_exprs x)"

definition EqualsFn :: "('v, 'd) HashTable \<Rightarrow> TupleRow \<Rightarrow> TupleRow \<Rightarrow> bool" where
  "EqualsFn ht a b =
     TupleEquals (stores_nulls ht)
       (SideValues (build_exprs1 ht) ht a) (SideValues (build_exprs2 ht) ht b)"

text \<open>
  \<open>Insert\<close>, \<open>size\<close> and \<open>Scan\<close> are defined in the header. \<open>size\<close> returns an
  \<open>int\<close>: the \<open>size_t\<close> count of the container is narrowed to 32 bits and read as a
  signed number, so from \<open>2^31\<close> nodes on it is not the count.
\<close>

definition Insert ::
  "('v option list \<Rightarrow> size_t) \<Rightarrow> ('v, 'd) HashTable \<Rightarrow> TupleRow \<Rightarrow> ('v, 'd) HashTable" where
  "Insert combine ht r =
     (if \<not> stores_nulls ht \<and> HasNulls ht r then ht
      else ht\<lparr>hash_tbl := hs_insert (HashFn combine ht) (EqualsFn ht) r (hash_tbl ht)\<rparr>)"

definition size_ht :: "('v, 'd) HashTable \<Rightarrow> int" where
  "size_ht ht = sint (word_of_nat (hs_size (hash_tbl ht)) :: 32 word)"

subsection \<open>The iterator\<close>

text \<open>
  A \<open>HashSet::iterator\<close> is a position in the iteration sequence of the container;
  \<open>end()\<close> is the position behind the last node. \<open>GetNext\<close> dereferences \<open>i_\<close>, so it
  reads the container: a position behind the last node has nothing to read, the
  behaviour of the C++ is undefined there, and the model returns \<open>None\<close>. Otherwise it
  returns the row pointer (possibly \<open>NULL\<close>) and the advanced iterator.
\<close>

record Iterator =
  i_pos :: nat
  end_pos :: nat

definition Reset :: "Iterator \<Rightarrow> nat \<times> nat \<Rightarrow> Iterator" where
  "Reset it rng = it\<lparr>i_pos := fst rng, end_pos := snd rng\<rparr>"

definition HasNext :: "Iterator \<Rightarrow> bool" where
  "HasNext it = (i_pos it \<noteq> end_pos it)"

definition GetNext :: "HashSet \<Rightarrow> Iterator \<Rightarrow> (TupleRow \<times> Iterator) option" where
  "GetNext tbl it =
     (if \<not> HasNext it then Some (None, it)
      else if i_pos it < hs_size tbl then Some (nodes tbl ! i_pos it, it\<lparr>i_pos := i_pos it + 1\<rparr>)
      else None)"

definition SkipToEnd :: "Iterator \<Rightarrow> Iterator" where
  "SkipToEnd it = it\<lparr>i_pos := end_pos it\<rparr>"

definition Scan ::
  "('v option list \<Rightarrow> size_t) \<Rightarrow> ('v, 'd) HashTable \<Rightarrow> TupleRow \<Rightarrow> Iterator
     \<Rightarrow> ('v, 'd) HashTable \<times> Iterator" where
  "Scan combine ht probe_row it =
     (let ht' = ht\<lparr>current_probe_row := probe_row\<rparr> in
      if probe_row \<noteq> None
      then (ht', Reset it (hs_equal_range (HashFn combine ht') (EqualsFn ht') None (hash_tbl ht')))
      else (ht', Reset it (hs_begin (hash_tbl ht'), hs_end (hash_tbl ht'))))"

text \<open>
  The consumer of a scan calls \<open>GetNext\<close> while \<open>HasNext\<close> holds. \<open>drain\<close> is that
  loop, collecting what the iterator produces; it is \<open>None\<close> when a call of \<open>GetNext\<close>
  is undefined.
\<close>

function drain :: "HashSet \<Rightarrow> Iterator \<Rightarrow> TupleRow list option" where
  "drain tbl it =
     (if \<not> HasNext it then Some []
      else case GetNext tbl it of
             None \<Rightarrow> None
           | Some (r, it') \<Rightarrow> map_option ((#) r) (drain tbl it'))"
  by pat_completeness auto
termination
  by (relation "measure (\<lambda>(tbl, it). hs_size tbl - i_pos it)")
     (auto simp: GetNext_def split: if_splits)

declare drain.simps [simp del]

text \<open>Calling \<open>GetNext\<close> \<open>n\<close> times in a row: the rows returned and the iterator left.\<close>

fun GetNextN :: "nat \<Rightarrow> HashSet \<Rightarrow> Iterator \<Rightarrow> (TupleRow list \<times> Iterator) option" where
  "GetNextN 0 tbl it = Some ([], it)"
| "GetNextN (Suc n) tbl it =
     (case GetNext tbl it of
        None \<Rightarrow> None
      | Some (r, it') \<Rightarrow>
          (case GetNextN n tbl it' of
             None \<Rightarrow> None
           | Some (rs, it'') \<Rightarrow> Some (r # rs, it'')))"

subsection \<open>Index states\<close>

text \<open>
  The build phase calls \<open>Insert\<close> once per build row. The states of a table are those
  reached from an empty container by inserting rows (real rows: \<open>NULL\<close> is the
  sentinel, not a row) and by scanning, in any order.
\<close>

definition InsertAll ::
  "('v option list \<Rightarrow> size_t) \<Rightarrow> ('v, 'd) HashTable \<Rightarrow> TupleRow list \<Rightarrow> ('v, 'd) HashTable" where
  "InsertAll combine ht rs = foldl (Insert combine) ht rs"

inductive reachable :: "('v option list \<Rightarrow> size_t) \<Rightarrow> ('v, 'd) HashTable \<Rightarrow> bool"
  for combine :: "'v option list \<Rightarrow> size_t" where
  fresh: "hash_tbl ht = [] \<Longrightarrow> reachable combine ht"
| after_Insert: "reachable combine ht \<Longrightarrow> reachable combine (Insert combine ht (Some r))"
| after_Scan: "reachable combine ht \<Longrightarrow> reachable combine (fst (Scan combine ht probe_row it))"

text \<open>
  The two build sets are two instances of the same key expressions: they return the same
  values on every row.
\<close>

definition same_build_keys :: "('v, 'd) HashTable \<Rightarrow> bool" where
  "same_build_keys ht \<longleftrightarrow>
     (\<forall>r. GetValues (build_exprs2 ht) (Some r) = GetValues (build_exprs1 ht) (Some r))"

text \<open>
  Invariants of the reachable states. In the container every group holds rows of one key
  tuple, carries the hash code of that tuple, and no two groups have the same key tuple;
  no node is \<open>NULL\<close>; and under the rejecting null policy no stored row has a null key.
\<close>

definition groups_inv :: "(TupleRow \<Rightarrow> 'k) \<Rightarrow> ('k \<Rightarrow> size_t) \<Rightarrow> HashSet \<Rightarrow> bool" where
  "groups_inv key combine tbl \<longleftrightarrow>
     (\<forall>g \<in> set tbl. case g of (h, x, xs) \<Rightarrow> h = combine (key x) \<and> (\<forall>y \<in> set xs. key y = key x))
     \<and> distinct (map (\<lambda>g. key (fst (snd g))) tbl)"

definition table_inv :: "('v option list \<Rightarrow> size_t) \<Rightarrow> ('v, 'd) HashTable \<Rightarrow> bool" where
  "table_inv combine ht \<longleftrightarrow>
     groups_inv (GetValues (build_exprs1 ht)) combine (hash_tbl ht)
     \<and> None \<notin> set (nodes (hash_tbl ht))"

definition null_policy_inv :: "('v, 'd) HashTable \<Rightarrow> bool" where
  "null_policy_inv ht \<longleftrightarrow>
     (stores_nulls ht \<or> (\<forall>s \<in> set (nodes (hash_tbl ht)). \<not> HasNulls ht s))"

subsection \<open>A small table\<close>

text \<open>
  The scenario of the spec's testable properties: one key expression; the row at address
  \<open>a\<close> has the key \<open>a mod 10\<close>, and a null key when that is \<open>0\<close>. Rows \<open>11\<close> and
  \<open>21\<close> have key \<open>1\<close>, row \<open>12\<close> has key \<open>2\<close>, rows \<open>20\<close> and \<open>30\<close> have a null
  key. The hash code is the arity of the tuple, so all keys collide.
\<close>

definition row_key :: "nat Expr" where
  "row_key r = (case r of None \<Rightarrow> None | Some a \<Rightarrow> if a mod 10 = 0 then None else Some (a mod 10))"

definition example_combine :: "nat option list \<Rightarrow> size_t" where
  "example_combine ks = of_nat (length ks)"

definition example_table :: "bool \<Rightarrow> (nat, unit) HashTable" where
  "example_table sn =
     \<lparr>hash_tbl = [], build_exprs1 = [row_key], build_exprs2 = [row_key], probe_exprs = [row_key],
      build_row_desc = (), current_probe_row = None, stores_nulls = sn\<rparr>"

definition example_it :: Iterator where
  "example_it = \<lparr>i_pos = 0, end_pos = 0\<rparr>"

text \<open>The table that stores nulls, after row \<open>11\<close> has been inserted \<open>n\<close> times.\<close>

definition full_table :: "nat \<Rightarrow> (nat, unit) HashTable" where
  "full_table n = InsertAll example_combine (example_table True) (replicate n (Some 11))"

section \<open>Supporting lemmas\<close>

subsection \<open>Key tuples and the container\<close>

lemma TupleEquals_iff:
  "TupleEquals ne ks ks' \<longleftrightarrow> ks = ks' \<and> (ne \<or> None \<notin> set ks)"
  by (induction ne ks ks' rule: TupleEquals.induct)
     (auto simp: ValueEquals_def split: option.splits)

lemma nodes_Nil [simp]: "nodes [] = []"
  by (simp add: nodes_def)

lemma nodes_Cons [simp]: "nodes ((h, x, xs) # gs) = x # xs @ nodes gs"
  by (simp add: nodes_def)

lemma mset_nodes_add_node:
  "mset (nodes (hs_add_node h eqk r tbl)) = add_mset r (mset (nodes tbl))"
  by (induction tbl) auto

lemma length_nodes_add_node:
  "length (nodes (hs_add_node h eqk r tbl)) = Suc (length (nodes tbl))"
  by (induction tbl) auto

lemma find_group_bounds:
  "hs_find_group pos h eqk tbl = (b, e) \<Longrightarrow> pos \<le> b \<and> b \<le> e \<and> e \<le> pos + length (nodes tbl)"
proof (induction tbl arbitrary: pos)
  case Nil
  then show ?case by simp
next
  case (Cons g gs)
  obtain h' x xs where g: "g = (h', x, xs)" by (cases g)
  show ?case
  proof (cases "h' = h \<and> eqk x")
    case True
    with Cons.prems g show ?thesis by auto
  next
    case False
    with Cons.prems g have "hs_find_group (pos + 1 + length xs) h eqk gs = (b, e)" by simp
    from Cons.IH [OF this] g show ?thesis by simp
  qed
qed

subsection \<open>What an iterator produces\<close>

lemma drain_range:
  "i_pos it \<le> end_pos it \<Longrightarrow> end_pos it \<le> hs_size tbl \<Longrightarrow>
   drain tbl it = Some (take (end_pos it - i_pos it) (drop (i_pos it) (nodes tbl)))"
proof (induction tbl it rule: drain.induct)
  case (1 tbl it)
  show ?case
  proof (cases "HasNext it")
    case False
    then show ?thesis by (subst drain.simps) (simp add: HasNext_def)
  next
    case True
    with "1.prems" have lt: "i_pos it < end_pos it" by (simp add: HasNext_def)
    with "1.prems" have inb: "i_pos it < hs_size tbl" by simp
    let ?it' = "it\<lparr>i_pos := i_pos it + 1\<rparr>"
    have gn: "GetNext tbl it = Some (nodes tbl ! i_pos it, ?it')"
      using True inb by (simp add: GetNext_def)
    have ih: "drain tbl ?it' = Some (take (end_pos ?it' - i_pos ?it') (drop (i_pos ?it') (nodes tbl)))"
      using "1.IH" [OF _ gn refl] True lt "1.prems" by simp
    have "take (end_pos it - i_pos it) (drop (i_pos it) (nodes tbl))
          = nodes tbl ! i_pos it # take (end_pos it - (i_pos it + 1)) (drop (i_pos it + 1) (nodes tbl))"
      using lt inb
      by (metis Cons_nth_drop_Suc Suc_diff_Suc Suc_eq_plus1 hs_size_def take_Suc_Cons)
    then show ?thesis
      using True gn ih by (subst drain.simps) simp
  qed
qed

lemma GetNextN_exhausted:
  "\<not> HasNext it \<Longrightarrow> GetNextN n tbl it = Some (replicate n None, it)"
  by (induction n) (simp_all add: GetNext_def)

subsection \<open>Insert and Scan on the container\<close>

lemma Insert_keeps_fields:
  "build_exprs1 (Insert combine ht r) = build_exprs1 ht"
  "build_exprs2 (Insert combine ht r) = build_exprs2 ht"
  "probe_exprs (Insert combine ht r) = probe_exprs ht"
  "stores_nulls (Insert combine ht r) = stores_nulls ht"
  "current_probe_row (Insert combine ht r) = current_probe_row ht"
  by (simp_all add: Insert_def)

lemma HasNulls_Insert: "HasNulls (Insert combine ht r) = HasNulls ht"
  by (rule ext) (simp add: HasNulls_def Insert_keeps_fields)

lemma Scan_fst: "fst (Scan combine ht probe_row it) = ht\<lparr>current_probe_row := probe_row\<rparr>"
  by (simp add: Scan_def Let_def)

lemma mset_nodes_Insert:
  "mset (nodes (hash_tbl (Insert combine ht r)))
   = (if stores_nulls ht \<or> \<not> HasNulls ht r then add_mset r (mset (nodes (hash_tbl ht)))
      else mset (nodes (hash_tbl ht)))"
  by (simp add: Insert_def hs_insert_def mset_nodes_add_node)

lemma InsertAll_keeps_fields:
  "build_exprs1 (InsertAll combine ht rs) = build_exprs1 ht"
  "build_exprs2 (InsertAll combine ht rs) = build_exprs2 ht"
  "probe_exprs (InsertAll combine ht rs) = probe_exprs ht"
  "stores_nulls (InsertAll combine ht rs) = stores_nulls ht"
  unfolding InsertAll_def
  by (induction rs arbitrary: ht) (simp_all add: Insert_keeps_fields)

lemma mset_nodes_InsertAll:
  "mset (nodes (hash_tbl (InsertAll combine ht rs)))
   = mset (nodes (hash_tbl ht)) + mset (filter (\<lambda>r. stores_nulls ht \<or> \<not> HasNulls ht r) rs)"
  unfolding InsertAll_def
proof (induction rs arbitrary: ht)
  case Nil
  show ?case by simp
next
  case (Cons r rs)
  show ?case
    by (simp add: Cons.IH mset_nodes_Insert HasNulls_Insert Insert_keeps_fields)
qed

lemma full_Scan_drain:
  assumes "Scan combine ht None it = (ht', it')"
  shows "drain (hash_tbl ht') it' = Some (nodes (hash_tbl ht))"
proof -
  from assms have "hash_tbl ht' = hash_tbl ht" "i_pos it' = 0"
    "end_pos it' = length (nodes (hash_tbl ht))"
    by (auto simp: Scan_def Let_def Reset_def hs_begin_def hs_end_def hs_size_def)
  then show ?thesis
    using drain_range [of it' "hash_tbl ht'"] by (simp add: hs_size_def)
qed

lemma Scan_drains_a_range:
  assumes "Scan combine ht probe_row it = (ht', it')"
  shows "\<exists>b e. b \<le> e \<and> e \<le> length (nodes (hash_tbl ht))
           \<and> drain (hash_tbl ht') it' = Some (take (e - b) (drop b (nodes (hash_tbl ht))))"
proof (cases "probe_row = None")
  case True
  with assms have "drain (hash_tbl ht') it' = Some (nodes (hash_tbl ht))"
    by (simp add: full_Scan_drain)
  then have "0 \<le> length (nodes (hash_tbl ht)) \<and> length (nodes (hash_tbl ht)) \<le> length (nodes (hash_tbl ht))
      \<and> drain (hash_tbl ht') it' = Some (take (length (nodes (hash_tbl ht)) - 0) (drop 0 (nodes (hash_tbl ht))))"
    by simp
  then show ?thesis by blast
next
  case False
  let ?ht = "ht\<lparr>current_probe_row := probe_row\<rparr>"
  obtain b e where be: "hs_find_group 0 (HashFn combine ?ht None) (EqualsFn ?ht None) (hash_tbl ht) = (b, e)"
    by (cases "hs_find_group 0 (HashFn combine ?ht None) (EqualsFn ?ht None) (hash_tbl ht)")
  with assms False have "hash_tbl ht' = hash_tbl ht" "i_pos it' = b" "end_pos it' = e"
    by (auto simp: Scan_def Let_def Reset_def hs_equal_range_def)
  moreover from find_group_bounds [OF be] have "b \<le> e" "e \<le> length (nodes (hash_tbl ht))"
    by simp_all
  ultimately show ?thesis
    using drain_range [of it' "hash_tbl ht'"] by (auto simp: hs_size_def)
qed

lemma null_policy_inv_reachable:
  "reachable combine ht \<Longrightarrow> null_policy_inv ht"
proof (induction rule: reachable.induct)
  case (fresh ht)
  then show ?case by (simp add: null_policy_inv_def)
next
  case (after_Insert ht r)
  have "set (nodes (hash_tbl (Insert combine ht (Some r))))
        = set_mset (mset (nodes (hash_tbl (Insert combine ht (Some r)))))"
    by simp
  also have "\<dots> \<subseteq> (if stores_nulls ht \<or> \<not> HasNulls ht (Some r) then {Some r} else {}) \<union> set (nodes (hash_tbl ht))"
    by (simp only: mset_nodes_Insert) (auto)
  finally show ?case
    using after_Insert.IH
    by (auto simp: null_policy_inv_def HasNulls_Insert Insert_keeps_fields split: if_splits)
next
  case (after_Scan ht probe_row it)
  then show ?case
    by (simp add: null_policy_inv_def Scan_fst HasNulls_def)
qed

subsection \<open>The invariant of the groups\<close>

lemma groups_inv_Nil: "groups_inv key combine []"
  by (simp add: groups_inv_def)

lemma groups_inv_Cons:
  "groups_inv key combine ((h, x, xs) # gs) \<longleftrightarrow>
     h = combine (key x) \<and> (\<forall>y \<in> set xs. key y = key x)
     \<and> key x \<notin> (\<lambda>g. key (fst (snd g))) ` set gs \<and> groups_inv key combine gs"
  by (auto simp: groups_inv_def)

lemma key_of_node:
  "groups_inv key combine tbl \<Longrightarrow> s \<in> set (nodes tbl) \<Longrightarrow> key s \<in> (\<lambda>g. key (fst (snd g))) ` set tbl"
proof (induction tbl)
  case Nil
  then show ?case by simp
next
  case (Cons g gs)
  obtain h x xs where g: "g = (h, x, xs)" by (cases g)
  from Cons.prems g show ?case
    using Cons.IH by (auto simp: groups_inv_Cons)
qed

lemma heads_add_node:
  "(\<lambda>g. key (fst (snd g))) ` set (hs_add_node h eqk r tbl) \<subseteq> insert (key r) ((\<lambda>g. key (fst (snd g))) ` set tbl)"
proof (induction tbl)
  case Nil
  show ?case by simp
next
  case (Cons g gs)
  obtain h' x xs where g: "g = (h', x, xs)" by (cases g)
  show ?case
  proof (cases "h' = h \<and> eqk x")
    case True
    with g show ?thesis by auto
  next
    case False
    with g Cons.IH show ?thesis by auto
  qed
qed

lemma groups_inv_add_node:
  assumes "groups_inv key combine tbl"
    and "\<forall>s \<in> set (nodes tbl). eqk s \<longleftrightarrow> key s = key r"
  shows "groups_inv key combine (hs_add_node (combine (key r)) eqk r tbl)"
  using assms
proof (induction tbl)
  case Nil
  show ?case by (simp add: groups_inv_def)
next
  case (Cons g gs)
  obtain h x xs where g: "g = (h, x, xs)" by (cases g)
  from Cons.prems g have inv: "h = combine (key x)" "\<forall>y \<in> set xs. key y = key x"
    "key x \<notin> (\<lambda>g. key (fst (snd g))) ` set gs" "groups_inv key combine gs"
    by (simp_all add: groups_inv_Cons)
  from Cons.prems(2) g have eqx: "eqk x \<longleftrightarrow> key x = key r"
    and eqgs: "\<forall>s \<in> set (nodes gs). eqk s \<longleftrightarrow> key s = key r"
    by simp_all
  show ?case
  proof (cases "h = combine (key r) \<and> eqk x")
    case True
    with eqx have kx: "key r = key x" by simp
    have step: "hs_add_node (combine (key r)) eqk r (g # gs) = (h, x, xs @ [r]) # gs"
      using True g by simp
    have "\<forall>y \<in> set (xs @ [r]). key y = key x"
      using inv(2) kx by simp
    with inv(1,3,4) have "groups_inv key combine ((h, x, xs @ [r]) # gs)"
      unfolding groups_inv_Cons by blast
    with step show ?thesis by simp
  next
    case False
    with inv(1) eqx have ne: "key x \<noteq> key r" by auto
    have step: "hs_add_node (combine (key r)) eqk r (g # gs)
                = (h, x, xs) # hs_add_node (combine (key r)) eqk r gs"
      using False g by simp
    have "key x \<notin> (\<lambda>g. key (fst (snd g))) ` set (hs_add_node (combine (key r)) eqk r gs)"
      using heads_add_node [of key "combine (key r)" eqk r gs] inv(3) ne by blast
    with inv(1,2) Cons.IH [OF inv(4) eqgs]
    have "groups_inv key combine ((h, x, xs) # hs_add_node (combine (key r)) eqk r gs)"
      unfolding groups_inv_Cons by blast
    with step show ?thesis by simp
  qed
qed

lemma find_group_filter:
  assumes "groups_inv key combine tbl"
    and "\<forall>s \<in> set (nodes tbl). eqk s \<longleftrightarrow> key s = pk \<and> ok"
    and "hs_find_group pos (combine pk) eqk tbl = (b, e)"
  shows "take (e - b) (drop (b - pos) (nodes tbl)) = filter eqk (nodes tbl)"
  using assms
proof (induction tbl arbitrary: pos)
  case Nil
  then show ?case by simp
next
  case (Cons g gs)
  obtain h x xs where g: "g = (h, x, xs)" by (cases g)
  from Cons.prems(1) g have inv: "h = combine (key x)" "\<forall>y \<in> set xs. key y = key x"
    "key x \<notin> (\<lambda>g. key (fst (snd g))) ` set gs" "groups_inv key combine gs"
    by (simp_all add: groups_inv_Cons)
  from Cons.prems(2) g have eqx: "eqk x \<longleftrightarrow> key x = pk \<and> ok"
    and eqxs: "\<forall>y \<in> set xs. eqk y \<longleftrightarrow> key y = pk \<and> ok"
    and eqgs: "\<forall>s \<in> set (nodes gs). eqk s \<longleftrightarrow> key s = pk \<and> ok"
    by simp_all
  show ?case
  proof (cases "eqk x")
    case True
    with eqx inv(1) have hit: "h = combine pk \<and> eqk x" by simp
    with Cons.prems(3) g have be: "b = pos" "e = pos + 1 + length xs" by simp_all
    from True eqx eqxs inv(2) have "filter eqk xs = xs" by (simp add: filter_id_conv)
    moreover have "filter eqk (nodes gs) = []"
    proof -
      have "\<not> eqk s" if "s \<in> set (nodes gs)" for s
      proof
        assume "eqk s"
        with eqgs that eqx True have "key s = key x" by simp
        with key_of_node [OF inv(4) that] inv(3) show False by simp
      qed
      then show ?thesis by (simp add: filter_empty_conv)
    qed
    ultimately show ?thesis using True g be by simp
  next
    case False
    with Cons.prems(3) g have rest: "hs_find_group (pos + 1 + length xs) (combine pk) eqk gs = (b, e)"
      by simp
    from find_group_bounds [OF rest] have le: "pos + 1 + length xs \<le> b" by simp
    from False eqx eqxs inv(2) have "filter eqk xs = []" by (auto simp: filter_empty_conv)
    moreover have "drop (b - pos) (nodes (g # gs)) = drop (b - (pos + 1 + length xs)) (nodes gs)"
    proof -
      have "b - pos = Suc (length xs + (b - (pos + 1 + length xs)))" using le by simp
      then show ?thesis using g by simp
    qed
    ultimately show ?thesis
      using False g Cons.IH [OF inv(4) eqgs rest] by simp
  qed
qed

lemma same_build_keys_Insert: "same_build_keys (Insert combine ht r) = same_build_keys ht"
  by (simp add: same_build_keys_def Insert_keeps_fields)

lemma same_build_keys_probe_row:
  "same_build_keys (ht\<lparr>current_probe_row := x\<rparr>) = same_build_keys ht"
  by (simp add: same_build_keys_def)

lemma table_inv_probe_row:
  "table_inv combine (ht\<lparr>current_probe_row := x\<rparr>) = table_inv combine ht"
  by (simp add: table_inv_def)

lemma EqualsFn_stored:
  "same_build_keys ht \<Longrightarrow>
   EqualsFn ht a (Some y)
   = TupleEquals (stores_nulls ht) (SideValues (build_exprs1 ht) ht a) (GetValues (build_exprs1 ht) (Some y))"
  by (simp add: EqualsFn_def SideValues_def same_build_keys_def)

lemma stored_values:
  "same_build_keys ht \<Longrightarrow> s \<noteq> None \<Longrightarrow> GetValues (build_exprs2 ht) s = GetValues (build_exprs1 ht) s"
  by (cases s) (simp_all add: same_build_keys_def)

lemma table_inv_Insert:
  assumes "table_inv combine ht" and "same_build_keys ht"
  shows "table_inv combine (Insert combine ht (Some r))"
proof (cases "\<not> stores_nulls ht \<and> HasNulls ht (Some r)")
  case True
  with assms(1) show ?thesis by (simp add: Insert_def)
next
  case False
  let ?key = "GetValues (build_exprs1 ht)"
  from False have ok: "stores_nulls ht \<or> None \<notin> set (?key (Some r))"
    by (auto simp: HasNulls_def list_ex_iff)
  have h: "HashFn combine ht (Some r) = combine (?key (Some r))"
    using assms(2) by (simp add: HashFn_def stored_values)
  have eq: "\<forall>s \<in> set (nodes (hash_tbl ht)). EqualsFn ht (Some r) s \<longleftrightarrow> ?key s = ?key (Some r)"
  proof
    fix s assume "s \<in> set (nodes (hash_tbl ht))"
    moreover from assms(1) have "None \<notin> set (nodes (hash_tbl ht))" by (simp add: table_inv_def)
    ultimately have "s \<noteq> None" by metis
    then obtain y where "s = Some y" by (cases s) auto
    then have "EqualsFn ht (Some r) s \<longleftrightarrow>
        TupleEquals (stores_nulls ht) (?key (Some r)) (?key s)"
      using assms(2) by (simp add: EqualsFn_stored SideValues_def)
    with ok show "EqualsFn ht (Some r) s \<longleftrightarrow> ?key s = ?key (Some r)"
      by (auto simp: TupleEquals_iff)
  qed
  from assms(1) have "groups_inv ?key combine (hash_tbl ht)" by (simp add: table_inv_def)
  from groups_inv_add_node [OF this eq]
  have "groups_inv ?key combine (hs_insert (HashFn combine ht) (EqualsFn ht) (Some r) (hash_tbl ht))"
    by (simp add: hs_insert_def h)
  moreover have "None \<notin> set (nodes (hs_insert (HashFn combine ht) (EqualsFn ht) (Some r) (hash_tbl ht)))"
  proof -
    have "set (nodes (hs_insert (HashFn combine ht) (EqualsFn ht) (Some r) (hash_tbl ht)))
          = set_mset (mset (nodes (hs_insert (HashFn combine ht) (EqualsFn ht) (Some r) (hash_tbl ht))))"
      by simp
    also have "\<dots> = insert (Some r) (set (nodes (hash_tbl ht)))"
      by (simp only: hs_insert_def mset_nodes_add_node) simp
    finally show ?thesis using assms(1) by (simp add: table_inv_def)
  qed
  ultimately show ?thesis
    using False by (auto simp: table_inv_def Insert_def)
qed

lemma table_inv_reachable:
  "reachable combine ht \<Longrightarrow> same_build_keys ht \<Longrightarrow> table_inv combine ht"
proof (induction rule: reachable.induct)
  case (fresh ht)
  then show ?case by (simp add: table_inv_def groups_inv_Nil)
next
  case (after_Insert ht r)
  then show ?case by (simp add: table_inv_Insert same_build_keys_Insert)
next
  case (after_Scan ht probe_row it)
  then show ?case by (simp add: Scan_fst table_inv_probe_row same_build_keys_probe_row)
qed

lemma probe_Scan_drain:
  assumes "table_inv combine ht" and "same_build_keys ht"
    and "Scan combine ht (Some p) it = (ht', it')"
  shows "drain (hash_tbl ht') it'
         = Some (filter (\<lambda>s. TupleEquals (stores_nulls ht) (GetValues (probe_exprs ht) (Some p))
                                (GetValues (build_exprs1 ht) s))
                   (nodes (hash_tbl ht)))"
proof -
  let ?ht = "ht\<lparr>current_probe_row := Some p\<rparr>"
  let ?key = "GetValues (build_exprs1 ht)"
  let ?pk = "GetValues (probe_exprs ht) (Some p)"
  let ?ok = "stores_nulls ht \<or> None \<notin> set ?pk"
  let ?P = "\<lambda>s. TupleEquals (stores_nulls ht) ?pk (?key s)"
  have h: "HashFn combine ?ht None = combine ?pk"
    by (simp add: HashFn_def)
  from assms(1) have no_null: "None \<notin> set (nodes (hash_tbl ht))"
    and groups: "groups_inv ?key combine (hash_tbl ht)"
    by (simp_all add: table_inv_def)
  have eqP: "EqualsFn ?ht None s = ?P s" if "s \<in> set (nodes (hash_tbl ht))" for s
  proof -
    from that no_null obtain y where "s = Some y" by (metis not_None_eq)
    with assms(2) show ?thesis
      by (simp add: EqualsFn_stored same_build_keys_probe_row SideValues_def)
  qed
  have eq: "\<forall>s \<in> set (nodes (hash_tbl ht)). EqualsFn ?ht None s \<longleftrightarrow> ?key s = ?pk \<and> ?ok"
  proof
    fix s assume "s \<in> set (nodes (hash_tbl ht))"
    then have "EqualsFn ?ht None s = ?P s" by (rule eqP)
    also have "?P s \<longleftrightarrow> ?key s = ?pk \<and> ?ok"
      by (metis TupleEquals_iff)
    finally show "EqualsFn ?ht None s \<longleftrightarrow> ?key s = ?pk \<and> ?ok" .
  qed
  obtain b e
    where be0: "hs_find_group 0 (HashFn combine ?ht None) (EqualsFn ?ht None) (hash_tbl ht) = (b, e)"
    by (cases "hs_find_group 0 (HashFn combine ?ht None) (EqualsFn ?ht None) (hash_tbl ht)")
  with assms(3) have it': "hash_tbl ht' = hash_tbl ht" "i_pos it' = b" "end_pos it' = e"
    by (auto simp: Scan_def Let_def Reset_def hs_equal_range_def)
  from be0 have be: "hs_find_group 0 (combine ?pk) (EqualsFn ?ht None) (hash_tbl ht) = (b, e)"
    by (simp only: h)
  from find_group_bounds [OF be] have bounds: "b \<le> e" "e \<le> length (nodes (hash_tbl ht))"
    by simp_all
  have range: "take (e - b) (drop b (nodes (hash_tbl ht)))
               = filter (EqualsFn ?ht None) (nodes (hash_tbl ht))"
    using find_group_filter [OF groups eq be] by simp
  have "drain (hash_tbl ht') it' = Some (take (e - b) (drop b (nodes (hash_tbl ht))))"
    using drain_range [of it' "hash_tbl ht'"] it' bounds by (simp add: hs_size_def)
  also have "take (e - b) (drop b (nodes (hash_tbl ht))) = filter ?P (nodes (hash_tbl ht))"
    unfolding range by (rule filter_cong [OF refl]) (rule eqP)
  finally show ?thesis .
qed

lemma int32_of_count:
  "sint (word_of_nat n :: 32 word) = signed_take_bit 31 (int n)"
  by (simp add: signed_of_nat)

lemma int32_of_small_count:
  "n < 2147483648 \<Longrightarrow> sint (word_of_nat n :: 32 word) = int n"
  unfolding int32_of_count by (rule signed_take_bit_int_eq_self) simp_all

lemma int32_of_count_add:
  assumes "sint (word_of_nat c :: 32 word) + int n \<le> 2147483647"
  shows "sint (word_of_nat (c + n) :: 32 word) = sint (word_of_nat c :: 32 word) + int n"
proof -
  let ?S = "signed_take_bit 31 (int c)"
  have "signed_take_bit 31 (int (c + n)) = signed_take_bit 31 (?S + signed_take_bit 31 (int n))"
    by (simp add: signed_take_bit_add)
  also have "\<dots> = signed_take_bit 31 (signed_take_bit 31 ?S + signed_take_bit 31 (int n))"
    by simp
  also have "\<dots> = signed_take_bit 31 (?S + int n)"
    by (rule signed_take_bit_add)
  also have "\<dots> = ?S + int n"
  proof (rule signed_take_bit_int_eq_self)
    have "- (2 ^ 31) \<le> ?S"
      using sint_ge [of "word_of_nat c :: 32 word"] by (simp add: int32_of_count)
    then show "- (2 ^ 31) \<le> ?S + int n" by simp
    show "?S + int n < 2 ^ 31"
      using assms by (simp add: int32_of_count)
  qed
  finally show ?thesis unfolding int32_of_count .
qed

lemma hs_size_Insert:
  "stores_nulls ht \<or> \<not> HasNulls ht r \<Longrightarrow>
   hs_size (hash_tbl (Insert combine ht r)) = hs_size (hash_tbl ht) + 1"
  by (auto simp: hs_size_def Insert_def hs_insert_def length_nodes_add_node)

lemma size_ht_Insert:
  assumes "stores_nulls ht \<or> \<not> HasNulls ht r" and "size_ht ht \<noteq> 2147483647"
  shows "size_ht (Insert combine ht r) = size_ht ht + 1"
proof -
  have "size_ht ht < 2147483648"
    using sint_lt [of "word_of_nat (hs_size (hash_tbl ht)) :: 32 word"] by (simp add: size_ht_def)
  with assms(2) have "sint (word_of_nat (hs_size (hash_tbl ht)) :: 32 word) + int 1 \<le> 2147483647"
    by (simp add: size_ht_def)
  from int32_of_count_add [OF this] show ?thesis
    by (simp add: size_ht_def hs_size_Insert [OF assms(1)])
qed

lemma reachable_InsertAll:
  "reachable combine ht \<Longrightarrow> reachable combine (InsertAll combine ht (map Some rs))"
  unfolding InsertAll_def
  by (induction rs arbitrary: ht) (simp_all add: reachable.after_Insert)

lemma same_build_keys_InsertAll:
  "same_build_keys (InsertAll combine ht rs) = same_build_keys ht"
  by (simp add: same_build_keys_def InsertAll_keeps_fields)

lemma equal_key_rows_after_InsertAll:
  assumes reach: "reachable combine ht" and same: "same_build_keys ht"
    and keys: "\<forall>r \<in> set rs. GetValues (build_exprs1 ht) (Some r) = k"
    and ok: "stores_nulls ht \<or> None \<notin> set k"
    and probe: "GetValues (probe_exprs ht) (Some p) = k"
    and scan: "Scan combine (InsertAll combine ht (map Some rs)) (Some p) it = (ht', it')"
  shows "\<exists>ys. drain (hash_tbl ht') it' = Some ys
           \<and> mset ys = mset (filter (\<lambda>s. GetValues (build_exprs1 ht) s = k) (nodes (hash_tbl ht)))
                        + mset (map Some rs)"
proof -
  let ?ht2 = "InsertAll combine ht (map Some rs)"
  let ?key = "GetValues (build_exprs1 ht)"
  let ?P = "\<lambda>s. TupleEquals (stores_nulls ht) k (?key s)"
  have P: "?P s \<longleftrightarrow> ?key s = k" for s
    using ok by (metis TupleEquals_iff)
  have inv2: "table_inv combine ?ht2"
    using reach same
    by (simp add: table_inv_reachable reachable_InsertAll same_build_keys_InsertAll)
  have same2: "same_build_keys ?ht2"
    using same by (simp add: same_build_keys_InsertAll)
  have "drain (hash_tbl ht') it' = Some (filter ?P (nodes (hash_tbl ?ht2)))"
    using probe_Scan_drain [OF inv2 same2 scan] probe by (simp add: InsertAll_keeps_fields)
  then have d: "drain (hash_tbl ht') it' = Some (filter (\<lambda>s. ?key s = k) (nodes (hash_tbl ?ht2)))"
    by (simp only: P)
  have acc: "filter (\<lambda>r. stores_nulls ht \<or> \<not> HasNulls ht r) (map Some rs) = map Some rs"
    using keys ok by (auto simp: filter_id_conv HasNulls_def list_ex_iff)
  have hit: "filter (\<lambda>s. ?key s = k) (map Some rs) = map Some rs"
    using keys by (auto simp: filter_id_conv)
  have "mset (filter (\<lambda>s. ?key s = k) (nodes (hash_tbl ?ht2)))
        = filter_mset (\<lambda>s. ?key s = k) (mset (nodes (hash_tbl ?ht2)))"
    by simp
  also have "\<dots> = filter_mset (\<lambda>s. ?key s = k) (mset (nodes (hash_tbl ht)) + mset (map Some rs))"
    by (simp only: mset_nodes_InsertAll acc)
  also have "\<dots> = mset (filter (\<lambda>s. ?key s = k) (nodes (hash_tbl ht)))
                   + mset (filter (\<lambda>s. ?key s = k) (map Some rs))"
    by simp
  finally show ?thesis
    using d hit by simp
qed

lemma hs_size_InsertAll:
  assumes "\<forall>r \<in> set rs. stores_nulls ht \<or> \<not> HasNulls ht r"
  shows "hs_size (hash_tbl (InsertAll combine ht rs)) = hs_size (hash_tbl ht) + length rs"
proof -
  have "hs_size (hash_tbl (InsertAll combine ht rs))
        = size (mset (nodes (hash_tbl (InsertAll combine ht rs))))"
    by (simp add: hs_size_def)
  also have "\<dots> = hs_size (hash_tbl ht) + length (filter (\<lambda>r. stores_nulls ht \<or> \<not> HasNulls ht r) rs)"
    by (simp only: mset_nodes_InsertAll) (simp add: hs_size_def flip: mset_filter)
  also have "filter (\<lambda>r. stores_nulls ht \<or> \<not> HasNulls ht r) rs = rs"
    using assms by (simp add: filter_id_conv)
  finally show ?thesis .
qed

lemma size_ht_InsertAll:
  assumes "\<forall>r \<in> set rs. stores_nulls ht \<or> \<not> HasNulls ht r"
    and "size_ht ht + int (length rs) \<le> 2147483647"
  shows "size_ht (InsertAll combine ht rs) = size_ht ht + int (length rs)"
  using int32_of_count_add [of "hs_size (hash_tbl ht)" "length rs"] assms(2)
  by (simp add: size_ht_def hs_size_InsertAll [OF assms(1)])

subsection \<open>The small table, evaluated\<close>

lemmas example_defs =
  example_table_def example_combine_def row_key_def InsertAll_def Insert_def HasNulls_def
  GetValues_def hs_insert_def HashFn_def EqualsFn_def SideValues_def ValueEquals_def

lemma example_build:
  "hash_tbl (InsertAll example_combine (example_table False) [Some 11, Some 20, Some 21, Some 12])
   = [(1, Some 11, [Some 21]), (1, Some 12, [])]"
  by (simp add: example_defs)

lemma example_fields:
  "stores_nulls (example_table sn) = sn"
  "build_exprs1 (example_table sn) = [row_key]"
  "build_exprs2 (example_table sn) = [row_key]"
  "probe_exprs (example_table sn) = [row_key]"
  "hash_tbl (example_table sn) = []"
  by (simp_all add: example_table_def)

lemma example_reachable:
  "reachable example_combine (InsertAll example_combine (example_table False) [Some 11, Some 20, Some 21, Some 12])"
  using reachable_InsertAll [of example_combine "example_table False" "[11, 20, 21, 12]"]
  by (simp add: reachable.fresh example_fields)

lemma example_same_keys: "same_build_keys (InsertAll example_combine (example_table sn) rs)"
  unfolding same_build_keys_InsertAll by (simp add: same_build_keys_def example_fields)

lemma full_table_reachable: "reachable example_combine (full_table n)"
  using reachable_InsertAll [of example_combine "example_table True" "replicate n 11"]
  by (simp add: full_table_def reachable.fresh example_fields)

lemma full_table_stores_nulls: "stores_nulls (full_table n)"
  by (simp add: full_table_def InsertAll_keeps_fields example_fields)

lemma full_table_count: "hs_size (hash_tbl (full_table n)) = n"
  using hs_size_InsertAll [of "replicate n (Some 11)" "example_table True" example_combine]
  by (simp add: full_table_def example_fields hs_size_def)

section \<open>Properties of the table\<close>

subsection \<open>Scanning with a probe row\<close>

text \<open>
  C1. In every reachable state whose two build sets compute the same keys, a scan with a
  real probe row produces exactly the stored rows whose key tuple equals the key tuple of
  the probe row under the equality contract (\<open>TupleEquals\<close> with the null policy of the
  table): what the iterator yields is the node sequence of the container filtered by that
  test. So every stored entry with an equal key is produced, as often as it is stored,
  and no entry with another key is.
\<close>

theorem probe_Scan_yields_exactly_the_matches:
  assumes "reachable combine ht" and "same_build_keys ht"
    and "Scan combine ht (Some p) it = (ht', it')"
  shows "drain (hash_tbl ht') it'
         = Some (filter (\<lambda>s. TupleEquals (stores_nulls ht) (GetValues (probe_exprs ht) (Some p))
                                (GetValues (build_exprs1 ht) s))
                   (nodes (hash_tbl ht)))"
  using probe_Scan_drain [OF table_inv_reachable [OF assms(1,2)] assms(2,3)] .

theorem probe_Scan_yields_exactly_the_matches_witness:
  "drain
     (hash_tbl (fst (Scan example_combine
        (InsertAll example_combine (example_table False) [Some 11, Some 20, Some 21, Some 12])
        (Some 31) example_it)))
     (snd (Scan example_combine
        (InsertAll example_combine (example_table False) [Some 11, Some 20, Some 21, Some 12])
        (Some 31) example_it))
   = Some [Some 11, Some 21]"
  using probe_Scan_yields_exactly_the_matches
    [OF example_reachable example_same_keys prod.collapse [symmetric], of 31 example_it]
  by (simp add: example_build InsertAll_keeps_fields example_fields GetValues_def row_key_def
        ValueEquals_def)

subsection \<open>The full scan\<close>

text \<open>
  C2. A scan with \<open>NULL\<close> produces the whole node sequence of the container, whatever
  the keys. The nodes are the rows inserted and not rejected: after inserting the rows
  \<open>rs\<close> into a table \<open>ht\<close>, the multiset of nodes is that of \<open>ht\<close> plus the rows of
  \<open>rs\<close> that pass the null policy, each as often as it was inserted. The number of
  entries produced is \<open>size()\<close> as long as the container holds fewer than \<open>2^31\<close>
  nodes.
\<close>

theorem full_Scan_yields_every_row:
  assumes "Scan combine (InsertAll combine ht rs) None it = (ht', it')"
  shows "drain (hash_tbl ht') it' = Some (nodes (hash_tbl (InsertAll combine ht rs)))
         \<and> (length (nodes (hash_tbl (InsertAll combine ht rs))) < 2147483648
              \<longrightarrow> int (length (nodes (hash_tbl (InsertAll combine ht rs))))
                   = size_ht (InsertAll combine ht rs))
         \<and> mset (nodes (hash_tbl (InsertAll combine ht rs)))
             = mset (nodes (hash_tbl ht))
               + mset (filter (\<lambda>r. stores_nulls ht \<or> \<not> HasNulls ht r) rs)"
  using full_Scan_drain [OF assms]
  by (simp add: size_ht_def hs_size_def mset_nodes_InsertAll int32_of_small_count)

theorem full_Scan_yields_every_row_witness:
  "drain
     (hash_tbl (fst (Scan example_combine
        (InsertAll example_combine (example_table False) [Some 11, Some 20, Some 21, Some 12])
        None example_it)))
     (snd (Scan example_combine
        (InsertAll example_combine (example_table False) [Some 11, Some 20, Some 21, Some 12])
        None example_it))
   = Some [Some 11, Some 21, Some 12]
   \<and> size_ht (InsertAll example_combine (example_table False) [Some 11, Some 20, Some 21, Some 12]) = 3"
  using full_Scan_yields_every_row
    [OF prod.collapse [symmetric], of example_combine "example_table False"
      "[Some 11, Some 20, Some 21, Some 12]" example_it]
  by (simp add: example_build)

text \<open>
  With \<open>2^31\<close> nodes the count and \<open>size()\<close> differ: in the table that stores nulls,
  after \<open>2147483648\<close> insertions of row \<open>11\<close>, a full scan produces all
  \<open>2147483648\<close> nodes and \<open>size()\<close> is \<open>-2147483648\<close>.
\<close>

theorem full_Scan_count_counterexample:
  "reachable example_combine (full_table 2147483648)
   \<and> drain (hash_tbl (fst (Scan example_combine (full_table 2147483648) None example_it)))
         (snd (Scan example_combine (full_table 2147483648) None example_it))
       = Some (nodes (hash_tbl (full_table 2147483648)))
   \<and> length (nodes (hash_tbl (full_table 2147483648))) = 2147483648
   \<and> size_ht (full_table 2147483648) = - 2147483648"
proof -
  have "length (nodes (hash_tbl (full_table 2147483648))) = 2147483648"
    using full_table_count [of 2147483648] by (simp only: hs_size_def)
  moreover have "size_ht (full_table 2147483648) = - 2147483648"
    by (simp add: size_ht_def full_table_count)
  ultimately show ?thesis
    using full_table_reachable [of 2147483648]
      full_Scan_drain [OF prod.collapse [symmetric], of example_combine "full_table 2147483648" example_it]
    by blast
qed

subsection \<open>The null policy\<close>

text \<open>
  C3. With \<open>stores_nulls_\<close> false, \<open>Insert\<close> of a row whose key tuple (the first build
  set over the row) has a null returns the table as it was, so \<open>size()\<close> is unchanged;
  and no scan of that state, with any probe argument, produces the row. Every later
  state is reachable again, so this holds for every later scan too.
\<close>

theorem Insert_rejects_null_keys:
  assumes "reachable combine ht"
    and "\<not> stores_nulls ht"
    and "None \<in> set (GetValues (build_exprs1 ht) (Some r))"
    and "Scan combine (Insert combine ht (Some r)) probe_row it = (ht', it')"
  shows "Insert combine ht (Some r) = ht
         \<and> size_ht (Insert combine ht (Some r)) = size_ht ht
         \<and> (\<exists>ys. drain (hash_tbl ht') it' = Some ys \<and> Some r \<notin> set ys)"
proof -
  have hn: "HasNulls ht (Some r)"
    using assms(3) by (auto simp: HasNulls_def list_ex_iff)
  with assms(2) have same: "Insert combine ht (Some r) = ht"
    by (simp add: Insert_def)
  from null_policy_inv_reachable [OF assms(1)] assms(2) hn
  have notin: "Some r \<notin> set (nodes (hash_tbl ht))"
    by (auto simp: null_policy_inv_def)
  from Scan_drains_a_range [OF assms(4) [unfolded same]]
  obtain b e where "drain (hash_tbl ht') it' = Some (take (e - b) (drop b (nodes (hash_tbl ht))))"
    by blast
  moreover have "set (take (e - b) (drop b (nodes (hash_tbl ht)))) \<subseteq> set (nodes (hash_tbl ht))"
    by (meson set_take_subset set_drop_subset subset_trans)
  ultimately show ?thesis
    using same notin by auto
qed

theorem Insert_rejects_null_keys_witness:
  "Insert example_combine
     (InsertAll example_combine (example_table False) [Some 11, Some 20, Some 21, Some 12]) (Some 30)
   = InsertAll example_combine (example_table False) [Some 11, Some 20, Some 21, Some 12]
   \<and> (\<exists>ys. drain
         (hash_tbl (fst (Scan example_combine
            (Insert example_combine
               (InsertAll example_combine (example_table False) [Some 11, Some 20, Some 21, Some 12])
               (Some 30))
            None example_it)))
         (snd (Scan example_combine
            (Insert example_combine
               (InsertAll example_combine (example_table False) [Some 11, Some 20, Some 21, Some 12])
               (Some 30))
            None example_it)) = Some ys
        \<and> Some 30 \<notin> set ys)"
proof -
  have "\<not> stores_nulls (InsertAll example_combine (example_table False) [Some 11, Some 20, Some 21, Some 12])"
    by (simp add: InsertAll_keeps_fields example_fields)
  moreover have "None \<in> set (GetValues (build_exprs1
      (InsertAll example_combine (example_table False) [Some 11, Some 20, Some 21, Some 12])) (Some 30))"
    by (simp add: InsertAll_keeps_fields example_fields GetValues_def row_key_def)
  ultimately show ?thesis
    using Insert_rejects_null_keys [OF example_reachable _ _ prod.collapse [symmetric], of 30 None example_it]
    by blast
qed

subsection \<open>Multiset semantics\<close>

text \<open>
  C4. In any state, \<open>Insert\<close> of a row that the null policy does not reject increases
  \<open>size()\<close> by one, whether or not an equal key is stored, unless \<open>size()\<close> is already
  \<open>2147483647\<close>, the largest \<open>int\<close>. And in a reachable state with agreeing build sets,
  after inserting \<open>N\<close> rows of one key tuple \<open>k\<close> (not rejected), a scan with a probe
  row of key \<open>k\<close> produces these \<open>N\<close> rows together with the rows of key \<open>k\<close> stored
  before, exactly \<open>N\<close> rows when there were none; and \<open>size()\<close> has grown by \<open>N\<close>
  when the sum is still an \<open>int\<close>.
\<close>

theorem Insert_multiset_semantics:
  "(stores_nulls ht \<or> \<not> HasNulls ht r \<longrightarrow> size_ht ht \<noteq> 2147483647
      \<longrightarrow> size_ht (Insert combine ht r) = size_ht ht + 1)
   \<and> (reachable combine ht \<and> same_build_keys ht
        \<and> (\<forall>r \<in> set rs. GetValues (build_exprs1 ht) (Some r) = k)
        \<and> (stores_nulls ht \<or> None \<notin> set k)
        \<and> GetValues (probe_exprs ht) (Some p) = k
        \<and> Scan combine (InsertAll combine ht (map Some rs)) (Some p) it = (ht', it')
      \<longrightarrow> (size_ht ht + int (length rs) \<le> 2147483647
            \<longrightarrow> size_ht (InsertAll combine ht (map Some rs)) = size_ht ht + int (length rs))
          \<and> (\<exists>ys. drain (hash_tbl ht') it' = Some ys
                \<and> mset ys = mset (filter (\<lambda>s. GetValues (build_exprs1 ht) s = k) (nodes (hash_tbl ht)))
                             + mset (map Some rs)))"
proof (intro conjI impI)
  assume "stores_nulls ht \<or> \<not> HasNulls ht r" and "size_ht ht \<noteq> 2147483647"
  then show "size_ht (Insert combine ht r) = size_ht ht + 1"
    by (rule size_ht_Insert)
next
  assume a: "reachable combine ht \<and> same_build_keys ht
        \<and> (\<forall>r \<in> set rs. GetValues (build_exprs1 ht) (Some r) = k)
        \<and> (stores_nulls ht \<or> None \<notin> set k)
        \<and> GetValues (probe_exprs ht) (Some p) = k
        \<and> Scan combine (InsertAll combine ht (map Some rs)) (Some p) it = (ht', it')"
    and b: "size_ht ht + int (length rs) \<le> 2147483647"
  from a have "\<forall>r \<in> set (map Some rs). stores_nulls ht \<or> \<not> HasNulls ht r"
    by (auto simp: HasNulls_def list_ex_iff)
  from size_ht_InsertAll [OF this] b
  show "size_ht (InsertAll combine ht (map Some rs)) = size_ht ht + int (length rs)"
    by simp
next
  assume a: "reachable combine ht \<and> same_build_keys ht
        \<and> (\<forall>r \<in> set rs. GetValues (build_exprs1 ht) (Some r) = k)
        \<and> (stores_nulls ht \<or> None \<notin> set k)
        \<and> GetValues (probe_exprs ht) (Some p) = k
        \<and> Scan combine (InsertAll combine ht (map Some rs)) (Some p) it = (ht', it')"
  then show "\<exists>ys. drain (hash_tbl ht') it' = Some ys
                \<and> mset ys = mset (filter (\<lambda>s. GetValues (build_exprs1 ht) s = k) (nodes (hash_tbl ht)))
                             + mset (map Some rs)"
    using equal_key_rows_after_InsertAll [of combine ht rs k p it ht' it'] by blast
qed

theorem Insert_multiset_semantics_witness:
  "size_ht (Insert example_combine (example_table False) (Some 11)) = size_ht (example_table False) + 1
   \<and> size_ht (InsertAll example_combine (example_table False) (map Some [11, 21, 31])) = 3
   \<and> (\<exists>ys. drain
         (hash_tbl (fst (Scan example_combine
            (InsertAll example_combine (example_table False) (map Some [11, 21, 31])) (Some 41) example_it)))
         (snd (Scan example_combine
            (InsertAll example_combine (example_table False) (map Some [11, 21, 31])) (Some 41) example_it))
         = Some ys
        \<and> mset ys = {#Some 11, Some 21, Some 31#})"
proof -
  have a: "stores_nulls (example_table False) \<or> \<not> HasNulls (example_table False) (Some 11)"
    by (simp add: HasNulls_def example_fields GetValues_def row_key_def)
  have b: "reachable example_combine (example_table False) \<and> same_build_keys (example_table False)
        \<and> (\<forall>r \<in> set [11, 21, 31]. GetValues (build_exprs1 (example_table False)) (Some r) = [Some 1])
        \<and> (stores_nulls (example_table False) \<or> None \<notin> set [Some (1::nat)])
        \<and> GetValues (probe_exprs (example_table False)) (Some 41) = [Some 1]
        \<and> Scan example_combine (InsertAll example_combine (example_table False) (map Some [11, 21, 31]))
            (Some 41) example_it
          = (fst (Scan example_combine (InsertAll example_combine (example_table False) (map Some [11, 21, 31]))
                   (Some 41) example_it),
             snd (Scan example_combine (InsertAll example_combine (example_table False) (map Some [11, 21, 31]))
                   (Some 41) example_it))"
    by (simp add: reachable.fresh same_build_keys_def example_fields GetValues_def row_key_def)
  have c: "size_ht (example_table False) = 0"
    by (simp add: size_ht_def hs_size_def example_fields)
  from Insert_multiset_semantics [where ht = "example_table False" and r = "Some 11"
      and combine = example_combine and rs = "[11, 21, 31]" and k = "[Some 1]" and p = 41
      and it = example_it
      and ht' = "fst (Scan example_combine
                   (InsertAll example_combine (example_table False) (map Some [11, 21, 31]))
                   (Some 41) example_it)"
      and it' = "snd (Scan example_combine
                   (InsertAll example_combine (example_table False) (map Some [11, 21, 31]))
                   (Some 41) example_it)"] a b c
  show ?thesis
    by (simp add: example_fields)
qed

text \<open>
  At \<open>2147483647\<close> nodes the \<open>int\<close> wraps: in the table that stores nulls, after
  \<open>2147483647\<close> insertions of row \<open>11\<close>, one more \<open>Insert\<close> of row \<open>11\<close> is not
  rejected and takes \<open>size()\<close> from \<open>2147483647\<close> to \<open>-2147483648\<close>.
\<close>

theorem Insert_size_counterexample:
  "reachable example_combine (full_table 2147483647)
   \<and> stores_nulls (full_table 2147483647)
   \<and> size_ht (full_table 2147483647) = 2147483647
   \<and> size_ht (Insert example_combine (full_table 2147483647) (Some 11)) = - 2147483648"
proof -
  have "size_ht (full_table 2147483647) = 2147483647"
    by (simp add: size_ht_def full_table_count)
  moreover have "size_ht (Insert example_combine (full_table 2147483647) (Some 11)) = - 2147483648"
    using hs_size_Insert [of "full_table 2147483647" "Some 11" example_combine]
    by (simp add: size_ht_def full_table_count full_table_stores_nulls)
  ultimately show ?thesis
    using full_table_reachable [of 2147483647] full_table_stores_nulls [of 2147483647] by blast
qed

subsection \<open>The hash and equality functors\<close>

text \<open>
  C5. \<open>HashFn\<close> applied to a real row combines the values of the second build set over
  that row; applied to the sentinel it combines the values of the probe set over
  \<open>current_probe_row_\<close>, with the same combination. So when the probe row and a build row
  have the same key values, and in particular whenever \<open>EqualsFn\<close> finds the sentinel
  equal to that build row, the two hash codes are equal.
\<close>

theorem HashFn_build_and_probe:
  "HashFn combine ht (Some x) = combine (GetValues (build_exprs2 ht) (Some x))
   \<and> HashFn combine ht None = combine (GetValues (probe_exprs ht) (current_probe_row ht))
   \<and> (GetValues (probe_exprs ht) (current_probe_row ht) = GetValues (build_exprs2 ht) (Some b)
        \<longrightarrow> HashFn combine ht None = HashFn combine ht (Some b))
   \<and> (EqualsFn ht None (Some b) \<longrightarrow> HashFn combine ht None = HashFn combine ht (Some b))"
  by (simp add: HashFn_def EqualsFn_def SideValues_def TupleEquals_iff)

theorem HashFn_build_and_probe_witness:
  "HashFn (\<lambda>ks. of_nat (length ks))
      \<lparr>hash_tbl = [], build_exprs1 = [\<lambda>r. r], build_exprs2 = [\<lambda>r. r],
       probe_exprs = [\<lambda>r. map_option (\<lambda>n. n - 1) r], build_row_desc = (),
       current_probe_row = Some 8, stores_nulls = False\<rparr> None
   = HashFn (\<lambda>ks. of_nat (length ks))
      \<lparr>hash_tbl = [], build_exprs1 = [\<lambda>r. r], build_exprs2 = [\<lambda>r. r],
       probe_exprs = [\<lambda>r. map_option (\<lambda>n. n - 1) r], build_row_desc = (),
       current_probe_row = Some 8, stores_nulls = False\<rparr> (Some 7)
   \<and> EqualsFn
      \<lparr>hash_tbl = [], build_exprs1 = [\<lambda>r. r], build_exprs2 = [\<lambda>r. r],
       probe_exprs = [\<lambda>r. map_option (\<lambda>n. n - 1) r], build_row_desc = (),
       current_probe_row = Some 8, stores_nulls = False\<rparr> None (Some (7::nat))"
  using HashFn_build_and_probe [of "\<lambda>ks. of_nat (length ks)"
      "\<lparr>hash_tbl = [], build_exprs1 = [\<lambda>r. r], build_exprs2 = [\<lambda>r. r],
       probe_exprs = [\<lambda>r. map_option (\<lambda>n. n - 1) r], build_row_desc = (),
       current_probe_row = Some 8, stores_nulls = False\<rparr>" 7 7]
  by (simp add: EqualsFn_def SideValues_def GetValues_def ValueEquals_def)

text \<open>
  C6. \<open>EqualsFn\<close> resolves each side on its own: a \<open>NULL\<close> side stands for the probe
  set over \<open>current_probe_row_\<close>, any other side for a build set over that row. The sides
  are equal iff the tuples have the same values position by position, a null being equal
  to a null only when \<open>stores_nulls_\<close> is true.
\<close>

theorem EqualsFn_resolves_each_side:
  assumes "ka = (if a = None then GetValues (probe_exprs ht) (current_probe_row ht)
                 else GetValues (build_exprs1 ht) a)"
    and "kb = (if b = None then GetValues (probe_exprs ht) (current_probe_row ht)
               else GetValues (build_exprs2 ht) b)"
  shows "EqualsFn ht a b \<longleftrightarrow>
           length ka = length kb
           \<and> (\<forall>i < length ka. ka ! i = kb ! i \<and> (ka ! i = None \<longrightarrow> stores_nulls ht))"
proof -
  have "EqualsFn ht a b \<longleftrightarrow> ka = kb \<and> (stores_nulls ht \<or> None \<notin> set ka)"
    using assms by (simp add: EqualsFn_def SideValues_def TupleEquals_iff)
  also have "\<dots> \<longleftrightarrow> length ka = length kb
           \<and> (\<forall>i < length ka. ka ! i = kb ! i \<and> (ka ! i = None \<longrightarrow> stores_nulls ht))"
    by (auto simp: list_eq_iff_nth_eq in_set_conv_nth)
  finally show ?thesis .
qed

theorem EqualsFn_resolves_each_side_witness:
  "EqualsFn
      \<lparr>hash_tbl = [], build_exprs1 = [\<lambda>r. r], build_exprs2 = [\<lambda>r. r],
       probe_exprs = [\<lambda>r. map_option (\<lambda>n. n - 1) r], build_row_desc = (),
       current_probe_row = Some 8, stores_nulls = False\<rparr> None (Some (7::nat))
   \<and> \<not> EqualsFn
      \<lparr>hash_tbl = [], build_exprs1 = [\<lambda>r. r], build_exprs2 = [\<lambda>r. r],
       probe_exprs = [\<lambda>r. map_option (\<lambda>n. n - 1) r], build_row_desc = (),
       current_probe_row = Some 8, stores_nulls = False\<rparr> (Some 6) (Some (7::nat))"
  using
    EqualsFn_resolves_each_side [where a = None and b = "Some 7" and ht =
      "\<lparr>hash_tbl = [], build_exprs1 = [\<lambda>r. r], build_exprs2 = [\<lambda>r. r],
       probe_exprs = [\<lambda>r. map_option (\<lambda>n. n - 1) r], build_row_desc = (),
       current_probe_row = Some 8, stores_nulls = False\<rparr>", OF refl refl]
    EqualsFn_resolves_each_side [where a = "Some 6" and b = "Some 7" and ht =
      "\<lparr>hash_tbl = [], build_exprs1 = [\<lambda>r. r], build_exprs2 = [\<lambda>r. r],
       probe_exprs = [\<lambda>r. map_option (\<lambda>n. n - 1) r], build_row_desc = (),
       current_probe_row = Some 8, stores_nulls = False\<rparr>", OF refl refl]
  by (simp add: GetValues_def)

subsection \<open>Scan and the iterator\<close>

text \<open>
  C7. \<open>Scan\<close> leaves the table as it was except for \<open>current_probe_row_\<close>, whatever the
  probe argument: the container, its node sequence and \<open>size()\<close> are the same before
  and after.
\<close>

theorem Scan_changes_only_probe_row:
  "fst (Scan combine ht probe_row it) = ht\<lparr>current_probe_row := probe_row\<rparr>
   \<and> hash_tbl (fst (Scan combine ht probe_row it)) = hash_tbl ht
   \<and> mset (nodes (hash_tbl (fst (Scan combine ht probe_row it)))) = mset (nodes (hash_tbl ht))
   \<and> size_ht (fst (Scan combine ht probe_row it)) = size_ht ht"
  by (simp add: Scan_def Let_def size_ht_def)

text \<open>
  C8. Once \<open>HasNext\<close> is false, every further \<open>GetNext\<close> returns \<open>NULL\<close> and leaves the
  iterator as it is: \<open>n\<close> calls in a row return \<open>n\<close> times \<open>NULL\<close>, are all defined,
  and end in the same exhausted iterator.
\<close>

theorem GetNext_past_exhaustion:
  assumes "\<not> HasNext it"
  shows "GetNext tbl it = Some (None, it)
         \<and> GetNextN n tbl it = Some (replicate n None, it)"
  using assms GetNextN_exhausted [of it n tbl] by (simp add: GetNext_def)

theorem GetNext_past_exhaustion_witness:
  "\<not> HasNext \<lparr>i_pos = 2, end_pos = 2\<rparr>
   \<and> GetNextN 3 [(5, Some 1, [Some 4])] \<lparr>i_pos = 2, end_pos = 2\<rparr>
       = Some ([None, None, None], \<lparr>i_pos = 2, end_pos = 2\<rparr>)"
  using GetNext_past_exhaustion [of "\<lparr>i_pos = 2, end_pos = 2\<rparr>" "[(5, Some 1, [Some 4])]" 3]
  by (simp add: HasNext_def numeral_3_eq_3)

text \<open>
  C9. \<open>SkipToEnd\<close> puts the iterator at its end from any position: \<open>HasNext\<close> is false
  right after it and every further \<open>GetNext\<close> returns \<open>NULL\<close>.
\<close>

theorem SkipToEnd_exhausts:
  "HasNext (SkipToEnd it) = False
   \<and> GetNext tbl (SkipToEnd it) = Some (None, SkipToEnd it)
   \<and> GetNextN n tbl (SkipToEnd it) = Some (replicate n None, SkipToEnd it)"
proof -
  have "\<not> HasNext (SkipToEnd it)"
    by (simp add: HasNext_def SkipToEnd_def)
  then show ?thesis
    using GetNextN_exhausted [of "SkipToEnd it" n tbl] by (simp add: GetNext_def)
qed

text \<open>
  C10. \<open>Scan\<close> stores its probe argument in \<open>current_probe_row_\<close> before it looks at
  it. A full scan (probe argument \<open>NULL\<close>) therefore sets \<open>current_probe_row_\<close> to
  \<open>NULL\<close>, also after a scan that had recorded a probe row; and the iterator a full scan
  returns does not depend on what \<open>current_probe_row_\<close> held.
\<close>

theorem Scan_overwrites_probe_row:
  "current_probe_row (fst (Scan combine ht probe_row it)) = probe_row
   \<and> current_probe_row (fst (Scan combine (fst (Scan combine ht (Some q) it)) None it')) = None
   \<and> snd (Scan combine (ht\<lparr>current_probe_row := x\<rparr>) None it) = snd (Scan combine ht None it)"
  by (simp add: Scan_def Let_def)

end
